theory Spec2Isabelle
  imports Main "HOL-Library.Log_Nat" "HOL-Library.Sublist"
begin

section \<open>Numbers\<close>

text \<open>
  A JavaScript number is an IEEE 754 binary64 value. The only numbers this program
  computes with are the quality of the retry loop (\<open>let quality = 0.9\<close>,
  \<open>quality -= 0.2\<close>) and the constant \<open>maxSizeMB: 0.5\<close>. A finite binary64 value is
  modelled by the rational it denotes; a decimal literal and the result of a subtraction
  are rounded to the nearest representable value, ties to the even significand
  (53 significant bits; below the exponent \<open>-1022\<close> the spacing stays that of the
  subnormals). Overflow to infinity is not modelled: every value here lies between
  \<open>-1\<close> and \<open>1\<close>.
\<close>

type_synonym number = rat

definition pow2 :: "int \<Rightarrow> rat" where
  "pow2 e = (if 0 \<le> e then 2 ^ nat e else 1 / 2 ^ nat (- e))"

definition roundTiesToEven :: "rat \<Rightarrow> int" where
  "roundTiesToEven x =
     (let f = \<lfloor>x\<rfloor>; d = x - of_int f
      in if d < 1 / 2 then f else if 1 / 2 < d then f + 1 else if even f then f else f + 1)"

text \<open>
  The binary exponent of a non-zero \<open>x\<close>: the \<open>e\<close> with
  \<open>pow2 e \<le> \<bar>x\<bar>\<close> and \<open>\<bar>x\<bar> < pow2 (e + 1)\<close>.
\<close>

definition exponent :: "rat \<Rightarrow> int" where
  "exponent x =
     (let (p, q) = quotient_of \<bar>x\<bar>; e = bitlen p - bitlen q
      in if pow2 e \<le> \<bar>x\<bar> then e else e - 1)"

definition binary64 :: "rat \<Rightarrow> number" where
  "binary64 x =
     (if x = 0 then 0
      else let ulp = pow2 (max (exponent x) (- 1022) - 52)
           in of_int (roundTiesToEven (x / ulp)) * ulp)"

text \<open>\<open>a - b\<close> on numbers.\<close>

definition num_sub :: "number \<Rightarrow> number \<Rightarrow> number" where
  "num_sub a b = binary64 (a - b)"

section \<open>Strings\<close>

text \<open>\<open>s.startsWith(p)\<close>\<close>

definition startsWith :: "string \<Rightarrow> string \<Rightarrow> bool" where
  "startsWith s p = (take (length p) s = p)"

text \<open>
  \<open>s.replace(pat, rep)\<close> with a string pattern: the first occurrence of \<open>pat\<close> in
  \<open>s\<close> is replaced, and \<open>s\<close> is returned as it is when there is none. (The
  replacement \<open>'.jpg'\<close> of this program holds no \<open>$\<close> pattern.)
\<close>

fun replace :: "string \<Rightarrow> string \<Rightarrow> string \<Rightarrow> string" where
  "replace [] pat rep = (if pat = [] then rep else [])"
| "replace (c # cs) pat rep =
     (if take (length pat) (c # cs) = pat then rep @ drop (length pat) (c # cs)
      else c # replace cs pat rep)"

text \<open>
  \<open>s.split(sep)\<close> for a one-character separator: the pieces between the occurrences of
  \<open>sep\<close>, so the result of splitting the empty string is one empty piece.
\<close>

fun split :: "string \<Rightarrow> char \<Rightarrow> string list" where
  "split [] sep = [[]]"
| "split (c # cs) sep =
     (if c = sep then [] # split cs sep
      else (case split cs sep of [] \<Rightarrow> [[c]] | p # ps \<Rightarrow> (c # p) # ps))"

section \<open>Files and the browser\<close>

text \<open>
  A \<open>Blob\<close> has a size in bytes, a media type and its bytes; the program never reads
  the bytes, so \<open>bytes\<close> is an opaque handle on them. A \<open>File\<close> is a \<open>Blob\<close> with a
  name and the relative path the folder picker gave it.
\<close>

record Blob =
  size' :: nat
  type' :: string
  bytes :: nat

record File = Blob +
  name :: string
  webkitRelativePath :: string

text \<open>\<open>new File([blob], name, {type: t})\<close>\<close>

definition newFile :: "Blob \<Rightarrow> string \<Rightarrow> string \<Rightarrow> File" where
  "newFile blob n t =
     \<lparr>size' = size' blob, type' = t, bytes = bytes blob, name = n, webkitRelativePath = ''''\<rparr>"

record Image =
  width :: nat
  height :: nat
  pixels :: nat

record Options =
  maxSizeMB :: number
  maxWidthOrHeight :: nat
  useWebWorker :: bool
  quality :: number

text \<open>
  The state of a promise when the program awaits it: resolved with a value, rejected
  with an error, or never settled (\<open>Pending\<close>), in which case the \<open>await\<close> never
  returns.
\<close>

datatype 'a promise = Resolved 'a | Rejected string | Pending

text \<open>
  What the program asks of its surroundings:
  \<^item> \<open>decodeImage f\<close> is the outcome of \<open>img.src = URL.createObjectURL(f)\<close>: \<open>Some img\<close>
    when the image loads and its \<open>load\<close> event fires, \<open>None\<close> when it cannot be decoded
    and its \<open>error\<close> event fires instead;
  \<^item> \<open>toBlob img t q\<close> is the argument the callback of \<open>canvas.toBlob(cb, t, q)\<close>
    receives for the canvas of the size of \<open>img\<close> that \<open>img\<close> was drawn on: a blob, or
    \<open>None\<close> for \<open>null\<close>;
  \<^item> \<open>imageCompression f options\<close> is the promise the library
    \<open>browser-image-compression\<close> returns.
\<close>

record Browser =
  decodeImage :: "File \<Rightarrow> Image option"
  toBlob :: "Image \<Rightarrow> string \<Rightarrow> number \<Rightarrow> Blob option"
  imageCompression :: "File \<Rightarrow> Options \<Rightarrow> File promise"

section \<open>The image normaliser\<close>

record ProcessedFile =
  file' :: File
  originalSize :: nat
  compressedSize :: nat
  isCompressed :: bool
  folderName :: string

text \<open>
  \<open>convertPngToJpg\<close>: the promise is resolved inside the \<open>onload\<close> handler only, and no
  \<open>onerror\<close> handler is set, so it stays pending when the image does not load.
\<close>

definition convertPngToJpg :: "Browser \<Rightarrow> File \<Rightarrow> File promise" where
  "convertPngToJpg env f =
     (if type' f \<noteq> ''image/png'' then Resolved f
      else (case decodeImage env f of
              None \<Rightarrow> Pending
            | Some img \<Rightarrow>
                (case toBlob env img ''image/jpeg'' (binary64 (9 / 10)) of
                   Some blob \<Rightarrow>
                     Resolved (newFile blob (replace (name f) ''.png'' ''.jpg'') ''image/jpeg'')
                 | None \<Rightarrow> Resolved f)))"

definition maxAttempts :: nat where
  "maxAttempts = 5"

text \<open>The \<open>options\<close> object of one attempt, for the current quality.\<close>

definition compressionOptions :: "number \<Rightarrow> Options" where
  "compressionOptions qual =
     \<lparr>maxSizeMB = binary64 (5 / 10), maxWidthOrHeight = 1920, useWebWorker = True,
      quality = qual\<rparr>"

text \<open>
  The \<open>while\<close> loop of \<open>compressImage\<close> over its variables \<open>quality\<close>,
  \<open>compressedFile\<close> and \<open>attempts\<close>. The result is the value of \<open>compressedFile\<close>
  after the loop, together with the calls of \<open>imageCompression\<close> the loop made, in
  order, each with the file and the options it passed. A rejected call is caught and
  leaves the loop (\<open>break\<close>).
\<close>

function compressLoop ::
  "Browser \<Rightarrow> File \<Rightarrow> number \<Rightarrow> File \<Rightarrow> nat \<Rightarrow> (File \<times> Options) list \<times> File promise" where
  "compressLoop env currentFile qual compressedFile attempts =
     (if size' compressedFile > 500 * 1024 \<and> attempts < maxAttempts then
        (let options = compressionOptions qual
         in case imageCompression env currentFile options of
              Resolved r \<Rightarrow>
                (let (calls, res) =
                       compressLoop env currentFile (num_sub qual (binary64 (2 / 10))) r (attempts + 1)
                 in ((currentFile, options) # calls, res))
            | Rejected e \<Rightarrow> ([(currentFile, options)], Resolved compressedFile)
            | Pending \<Rightarrow> ([(currentFile, options)], Pending))
      else ([], Resolved compressedFile))"
  by pat_completeness auto
termination
  by (relation "measure (\<lambda>(env, currentFile, qual, compressedFile, attempts).
        maxAttempts - attempts)")
     auto

declare compressLoop.simps [simp del]

text \<open>
  The value of the variable \<open>quality\<close> after \<open>k\<close> passes through
  \<open>quality -= 0.2\<close>, from its initial value \<open>0.9\<close>.
\<close>

fun qualityAfter :: "nat \<Rightarrow> number" where
  "qualityAfter 0 = binary64 (9 / 10)"
| "qualityAfter (Suc k) = num_sub (qualityAfter k) (binary64 (2 / 10))"

text \<open>
  \<open>compressImage(file, folderName)\<close> of the folder variant; \<open>compressImage(file)\<close> of
  \<open>src/App.tsx\<close> is the same function without the \<open>folderName\<close> field. The first
  component of the result lists the calls of \<open>imageCompression\<close> that were made.
\<close>

definition compressImage ::
  "Browser \<Rightarrow> File \<Rightarrow> string \<Rightarrow> (File \<times> Options) list \<times> ProcessedFile promise" where
  "compressImage env f fn =
     (let originalSize = size' f
      in case (if type' f = ''image/png'' then convertPngToJpg env f else Resolved f) of
           Pending \<Rightarrow> ([], Pending)
         | Rejected e \<Rightarrow> ([], Rejected e)
         | Resolved currentFile \<Rightarrow>
             if startsWith (type' currentFile) ''image/'' then
               if size' currentFile \<le> 500 * 1024 then
                 ([], Resolved \<lparr>file' = currentFile, originalSize = originalSize,
                                 compressedSize = size' currentFile, isCompressed = False,
                                 folderName = fn\<rparr>)
               else
                 (case compressLoop env currentFile (binary64 (9 / 10)) currentFile 0 of
                    (calls, Resolved compressedFile) \<Rightarrow>
                      (calls, Resolved \<lparr>file' = compressedFile, originalSize = originalSize,
                                          compressedSize = size' compressedFile,
                                          isCompressed = True, folderName = fn\<rparr>)
                  | (calls, Rejected e) \<Rightarrow> (calls, Rejected e)
                  | (calls, Pending) \<Rightarrow> (calls, Pending))
             else
               ([], Resolved \<lparr>file' = currentFile, originalSize = originalSize,
                               compressedSize = size' currentFile, isCompressed = False,
                               folderName = fn\<rparr>))"

section \<open>Intake and grouping\<close>

text \<open>
  A \<open>Map\<close> of JavaScript keeps its entries in the order in which their keys were first
  set, and \<open>Array.from(m.entries())\<close> lists them in that order: an association
  list, in which \<open>mapSet\<close> replaces the value of a key that is present where it stands
  and adds a new key at the end.
\<close>

type_synonym ('k, 'v) Map = "('k \<times> 'v) list"

definition mapHas :: "('k, 'v) Map \<Rightarrow> 'k \<Rightarrow> bool" where
  "mapHas m k = (map_of m k \<noteq> None)"

definition mapGet :: "('k, 'v) Map \<Rightarrow> 'k \<Rightarrow> 'v option" where
  "mapGet m k = map_of m k"

fun mapSet :: "('k, 'v) Map \<Rightarrow> 'k \<Rightarrow> 'v \<Rightarrow> ('k, 'v) Map" where
  "mapSet [] k v = [(k, v)]"
| "mapSet (e # m) k v = (if fst e = k then (k, v) # m else e # mapSet m k v)"

record FolderData =
  name' :: string
  files :: "File list"
  processedFiles :: "ProcessedFile list"

text \<open>
  The body of \<open>uploadedFiles.forEach\<close> in \<open>handleFolderUpload\<close>:
  \<open>pathParts[0]\<close> is the head of a list that \<open>split\<close> never returns empty, and
  \<open>folderMap.get(folderName)?.push(file)\<close> extends the array stored under the key.
\<close>

definition addToFolderMap :: "File \<Rightarrow> (string, File list) Map \<Rightarrow> (string, File list) Map" where
  "addToFolderMap f folderMap =
     (let pathParts = split (webkitRelativePath f) CHR ''/'';
          folder = hd pathParts;
          folderMap1 = (if \<not> mapHas folderMap folder then mapSet folderMap folder [] else folderMap)
      in case mapGet folderMap1 folder of
           Some arr \<Rightarrow> mapSet folderMap1 folder (arr @ [f])
         | None \<Rightarrow> folderMap1)"

definition newFolders :: "File list \<Rightarrow> FolderData list" where
  "newFolders uploadedFiles =
     map (\<lambda>(n, fs). \<lparr>name' = n, files = fs, processedFiles = []\<rparr>)
         (fold addToFolderMap uploadedFiles [])"

text \<open>
  The grouping as the specification words it, to compare \<open>newFolders\<close> with: the
  group of a file is the first segment of its relative path, the groups stand in the
  order in which their names are first seen, and each group holds its files in the order
  of the input.
\<close>

definition firstSegment :: "File \<Rightarrow> string" where
  "firstSegment f = hd (split (webkitRelativePath f) CHR ''/'')"

fun firstSeen :: "'a list \<Rightarrow> 'a list" where
  "firstSeen [] = []"
| "firstSeen (x # xs) = x # filter (\<lambda>y. y \<noteq> x) (firstSeen xs)"

definition groupedInOrder :: "File list \<Rightarrow> FolderData list" where
  "groupedInOrder uploadedFiles =
     map (\<lambda>n. \<lparr>name' = n, files = filter (\<lambda>f. firstSegment f = n) uploadedFiles,
                processedFiles = []\<rparr>)
         (firstSeen (map firstSegment uploadedFiles))"

text \<open>The same grouping as a folder map, before the entries are made into folders.\<close>

definition grouped :: "File list \<Rightarrow> (string, File list) Map" where
  "grouped fs =
     map (\<lambda>n. (n, filter (\<lambda>f. firstSegment f = n) fs)) (firstSeen (map firstSegment fs))"

section \<open>The folders state\<close>

text \<open>
  An element of the array held in the \<open>folders\<close> state. The handlers build folders,
  but the update \<open>{ ...newFolders[i], processedFiles: processed }\<close> of
  \<open>processFiles\<close> builds an object with \<open>processedFiles\<close> and nothing else when
  \<open>newFolders[i]\<close> is \<open>undefined\<close> (\<open>Bare\<close>), and an assignment past the end of
  an array leaves holes before the index it writes.
\<close>

datatype Slot = Folder FolderData | Bare "ProcessedFile list" | Undefined | Hole

text \<open>\<open>[...a]\<close>: a hole is read as \<open>undefined\<close>.\<close>

definition spread :: "Slot list \<Rightarrow> Slot list" where
  "spread a = map (\<lambda>s. if s = Hole then Undefined else s) a"

text \<open>\<open>a[i]\<close>: \<open>undefined\<close> at a hole and past the end.\<close>

definition readAt :: "Slot list \<Rightarrow> nat \<Rightarrow> Slot" where
  "readAt a i = (if i < length a \<and> a ! i \<noteq> Hole then a ! i else Undefined)"

text \<open>
  \<open>a[i] = v\<close>: past the end the array grows to the length \<open>i + 1\<close>, and the indices
  between the old end and \<open>i\<close> are holes.
\<close>

definition assignAt :: "Slot list \<Rightarrow> nat \<Rightarrow> Slot \<Rightarrow> Slot list" where
  "assignAt a i v =
     (if i < length a then a[i := v] else a @ replicate (i - length a) Hole @ [v])"

text \<open>\<open>{ ...x, processedFiles: processed }\<close>: spreading \<open>undefined\<close> gives no field.\<close>

definition withProcessedFiles :: "Slot \<Rightarrow> ProcessedFile list \<Rightarrow> Slot" where
  "withProcessedFiles x processed =
     (case x of
        Folder fd \<Rightarrow> Folder (fd\<lparr>processedFiles := processed\<rparr>)
      | Bare p \<Rightarrow> Bare processed
      | Undefined \<Rightarrow> Bare processed
      | Hole \<Rightarrow> Bare processed)"

text \<open>\<open>handleFolderUpload\<close>: \<open>setFolders(prev => [...prev, ...newFolders])\<close>\<close>

definition handleFolderUpload :: "File list \<Rightarrow> Slot list \<Rightarrow> Slot list" where
  "handleFolderUpload uploadedFiles prev = spread prev @ map Folder (newFolders uploadedFiles)"

text \<open>
  \<open>removeFolder\<close>: \<open>setFolders(prev => prev.filter((_, i) => i !== index))\<close>. The
  callback of \<open>filter\<close> is not called for a hole, and the result holds none.
\<close>

definition removeFolder :: "nat \<Rightarrow> Slot list \<Rightarrow> Slot list" where
  "removeFolder index prev =
     map snd (filter (\<lambda>(i, s). s \<noteq> Hole \<and> i \<noteq> index) (enumerate 0 prev))"

section \<open>The batch driver\<close>

text \<open>
  The inner loop of \<open>processFiles\<close>, \<open>for (const file of folder.files)\<close>, with its
  accumulator \<open>processed\<close>. It awaits \<open>compressImage\<close> for one file after the other.
\<close>

fun processFolder ::
  "Browser \<Rightarrow> string \<Rightarrow> File list \<Rightarrow> ProcessedFile list \<Rightarrow> ProcessedFile list promise" where
  "processFolder env fn [] processed = Resolved processed"
| "processFolder env fn (f # fs) processed =
     (case snd (compressImage env f fn) of
        Resolved result \<Rightarrow> processFolder env fn fs (processed @ [result])
      | Rejected e \<Rightarrow> Rejected e
      | Pending \<Rightarrow> Pending)"

text \<open>
  The update that \<open>processFiles\<close> passes to \<open>setFolders\<close> after folder \<open>i\<close>. It is
  applied to the state as it is at that moment, not to the list the loop reads:
  \<^verbatim>\<open>prev => { const newFolders = [...prev];
            newFolders[i] = { ...newFolders[i], processedFiles: processed };
            return newFolders; }\<close>
\<close>

definition setProcessedFiles :: "nat \<Rightarrow> ProcessedFile list \<Rightarrow> Slot list \<Rightarrow> Slot list" where
  "setProcessedFiles i processed prev =
     (let copy = spread prev
      in assignAt copy i (withProcessedFiles (readAt copy i) processed))"

text \<open>
  The state of the component: the \<open>folders\<close> array, the flag \<open>isProcessing\<close>, and
  the call of \<open>processFiles\<close> that is under way, if there is one, as the list
  \<open>folders\<close> that its closure holds (the state at the click) and its loop variable
  \<open>i\<close>. The third state variable of the source, \<open>processingStatus\<close>, is only
  displayed and is left out.
\<close>

record App =
  folders :: "Slot list"
  isProcessing :: bool
  running :: "(Slot list \<times> nat) option"

definition initialApp :: App where
  "initialApp = \<lparr>folders = [], isProcessing = False, running = None\<rparr>"

text \<open>
  \<open>processFiles\<close> up to its first \<open>await\<close>: \<open>setIsProcessing(true)\<close>, and the loop
  starts at \<open>i = 0\<close> on the \<open>folders\<close> of the closure.
\<close>

definition processFiles :: "App \<Rightarrow> App" where
  "processFiles st = st\<lparr>isProcessing := True, running := Some (folders st, 0)\<rparr>"

text \<open>
  \<open>processFiles\<close> from one test of \<open>i < folders.length\<close> to the next. The call
  reads folder \<open>i\<close> from the list of its closure, awaits the files of that folder, and
  then updates the state of that moment at index \<open>i\<close>; other handlers can run while
  it waits. After the last folder it ends with \<open>setIsProcessing(false)\<close>. A file that
  never settles leaves the call waiting, with the updates it has made so far in the
  state. An element of the closure's list that is no folder ends the call with a
  \<open>TypeError\<close> (\<open>folder.name\<close> of \<open>undefined\<close>, or \<open>folder.files\<close> not
  iterable), and \<open>isProcessing\<close> stays set.
\<close>

definition processFilesStep :: "Browser \<Rightarrow> App \<Rightarrow> App" where
  "processFilesStep env st =
     (case running st of
        None \<Rightarrow> st
      | Some (closure, i) \<Rightarrow>
          if i < length closure then
            (case readAt closure i of
               Folder folder \<Rightarrow>
                 (case processFolder env (name' folder) (files folder) [] of
                    Resolved processed \<Rightarrow>
                      st\<lparr>folders := setProcessedFiles i processed (folders st),
                         running := Some (closure, i + 1)\<rparr>
                  | Rejected e \<Rightarrow> st\<lparr>running := None\<rparr>
                  | Pending \<Rightarrow> st)
             | Bare p \<Rightarrow> st\<lparr>running := None\<rparr>
             | Undefined \<Rightarrow> st\<lparr>running := None\<rparr>
             | Hole \<Rightarrow> st\<lparr>running := None\<rparr>)
          else st\<lparr>isProcessing := False, running := None\<rparr>)"

text \<open>
  The page shows the button \<open>Process Files\<close> under the condition
  \<open>folders.length > 0 && !isProcessing && !folders.some(f => f.processedFiles.length > 0)\<close>,
  and shows nothing when an element of \<open>folders\<close> is no folder, since rendering the
  list of folders then throws. The folder picker and the \<open>Remove\<close> button of every
  folder are shown without a condition on \<open>isProcessing\<close>.
\<close>

definition processButtonShown :: "App \<Rightarrow> bool" where
  "processButtonShown st =
     (folders st \<noteq> [] \<and> \<not> isProcessing st \<and>
      list_all (\<lambda>s. case s of Folder fd \<Rightarrow> processedFiles fd = [] | Bare p \<Rightarrow> False
                      | Undefined \<Rightarrow> False | Hole \<Rightarrow> True) (folders st))"

text \<open>
  What can happen to the component: the user selects folders, removes the folder at an
  index, or clicks \<open>Process Files\<close>, or the call of \<open>processFiles\<close> that is under
  way comes to the end of a folder. The first two are taken to be possible in every
  state, the click only where the button is shown.
\<close>

datatype Event = Select "File list" | Remove nat | Process | FolderDone

fun step :: "Browser \<Rightarrow> Event \<Rightarrow> App \<Rightarrow> App" where
  "step env (Select uploadedFiles) st =
     st\<lparr>folders := handleFolderUpload uploadedFiles (folders st)\<rparr>"
| "step env (Remove index) st = st\<lparr>folders := removeFolder index (folders st)\<rparr>"
| "step env Process st = (if processButtonShown st then processFiles st else st)"
| "step env FolderDone st = processFilesStep env st"

text \<open>
  \<open>downloadProcessedFiles\<close>: the calls \<open>folderZip.file(file.name, file)\<close> it makes, in
  order, each with the argument of the call \<open>zip.folder(folder.name)\<close> that made
  \<open>folderZip\<close> (\<open>None\<close> for \<open>undefined\<close>). \<open>forEach\<close> passes over a hole; an
  element \<open>undefined\<close> ends the handler with a \<open>TypeError\<close> before an archive is
  made.
\<close>

definition downloadProcessedFiles ::
  "Slot list \<Rightarrow> string + (string option \<times> string \<times> File) list" where
  "downloadProcessedFiles slots =
     (if Undefined \<in> set slots then Inl ''TypeError''
      else Inr (concat (map (\<lambda>s. case s of
                  Folder fd \<Rightarrow>
                    map (\<lambda>pf. (Some (name' fd), name (file' pf), file' pf)) (processedFiles fd)
                | Bare p \<Rightarrow> map (\<lambda>pf. (None, name (file' pf), file' pf)) p
                | Undefined \<Rightarrow> []
                | Hole \<Rightarrow> []) slots)))"

text \<open>
  The groups of a state, each with its name and its files, and the groups that an event
  brings into the state.
\<close>

definition groupsOf :: "Slot list \<Rightarrow> (string \<times> File list) list" where
  "groupsOf slots =
     concat (map (\<lambda>s. case s of Folder fd \<Rightarrow> [(name' fd, files fd)] | Bare p \<Rightarrow> []
                     | Undefined \<Rightarrow> [] | Hole \<Rightarrow> []) slots)"

fun intake :: "Event \<Rightarrow> (string \<times> File list) list" where
  "intake (Select uploadedFiles) = map (\<lambda>fd. (name' fd, files fd)) (newFolders uploadedFiles)"
| "intake (Remove index) = []"
| "intake Process = []"
| "intake FolderDone = []"

section \<open>Example inputs\<close>

definition exampleFile :: "string \<Rightarrow> string \<Rightarrow> string \<Rightarrow> nat \<Rightarrow> File" where
  "exampleFile path n t sz =
     \<lparr>size' = sz, type' = t, bytes = 0, name = n, webkitRelativePath = path\<rparr>"

text \<open>
  A browser in which every image loads, the canvas encodes every image to 300000 bytes,
  and the compression library returns \<open>out q\<close> for the quality \<open>q\<close> it is called with.
\<close>

definition exampleBrowser :: "(number \<Rightarrow> File promise) \<Rightarrow> Browser" where
  "exampleBrowser out =
     \<lparr>decodeImage = (\<lambda>f. Some \<lparr>width = 640, height = 480, pixels = bytes f\<rparr>),
      toBlob = (\<lambda>img t q. Some \<lparr>size' = 300000, type' = t, bytes = pixels img\<rparr>),
      imageCompression = (\<lambda>f options. out (quality options))\<rparr>"

text \<open>The files and browsers of the examples below.\<close>

definition textFile :: File where
  "textFile = exampleFile ''docs/notes.txt'' ''notes.txt'' ''text/plain'' 2000000"

definition bigJpeg :: File where
  "bigJpeg = exampleFile ''A/big.jpg'' ''big.jpg'' ''image/jpeg'' 2000000"

definition stillOversized :: File where
  "stillOversized = exampleFile [] ''big.jpg'' ''image/jpeg'' 600000"

definition brokenPng :: File where
  "brokenPng = exampleFile ''A/broken.png'' ''broken.png'' ''image/png'' 1000"

definition doubledPng :: File where
  "doubledPng = exampleFile ''A/logo.png.png'' ''logo.png.png'' ''image/png'' 1000"

definition fileAx :: File where
  "fileAx = exampleFile ''A/x.png'' ''x.png'' ''image/png'' 10"

definition fileBy :: File where
  "fileBy = exampleFile ''B/y.png'' ''y.png'' ''image/png'' 20"

definition fileAz :: File where
  "fileAz = exampleFile ''A/z.png'' ''z.png'' ''image/png'' 30"

definition fileCw :: File where
  "fileCw = exampleFile ''C/w.png'' ''w.png'' ''image/png'' 40"

text \<open>The library is never called, always returns 600000 bytes, or always fails.\<close>

definition idleBrowser :: Browser where
  "idleBrowser = exampleBrowser (\<lambda>q. Pending)"

definition oversizingBrowser :: Browser where
  "oversizingBrowser = exampleBrowser (\<lambda>q. Resolved stillOversized)"

definition rejectingBrowser :: Browser where
  "rejectingBrowser = exampleBrowser (\<lambda>q. Rejected ''encoder error'')"

text \<open>No image can be decoded.\<close>

definition undecodingBrowser :: Browser where
  "undecodingBrowser = idleBrowser\<lparr>decodeImage := \<lambda>f. None\<rparr>"

text \<open>
  The three folders that selecting \<open>fileAx\<close>, \<open>fileBy\<close> and \<open>fileCw\<close> gives, and
  what \<open>compressImage\<close> returns in \<open>idleBrowser\<close> for a small PNG file of \<open>sz\<close>
  bytes in the folder \<open>fn\<close>: the converted file, of the name \<open>n\<close>, not compressed.
\<close>

definition folderA :: FolderData where
  "folderA = \<lparr>name' = ''A'', files = [fileAx], processedFiles = []\<rparr>"

definition folderB :: FolderData where
  "folderB = \<lparr>name' = ''B'', files = [fileBy], processedFiles = []\<rparr>"

definition folderC :: FolderData where
  "folderC = \<lparr>name' = ''C'', files = [fileCw], processedFiles = []\<rparr>"

definition converted :: "string \<Rightarrow> nat \<Rightarrow> string \<Rightarrow> ProcessedFile" where
  "converted n sz fn =
     \<lparr>file' = \<lparr>size' = 300000, type' = ''image/jpeg'', bytes = 0, name = n,
               webkitRelativePath = ''''\<rparr>,
      originalSize = sz, compressedSize = 300000, isCompressed = False, folderName = fn\<rparr>"

section \<open>The number model\<close>

text \<open>
  \<open>binary64\<close> rounds to a nearest value of the format: the exponent it takes is the
  binary exponent of its argument, the result differs from the argument by at most half
  a unit in the last place, and its significand has at most 53 bits.
\<close>

lemma pow2_powi: "pow2 e = 2 powi e"
  by (simp add: pow2_def power_int_def inverse_eq_divide power_one_over flip: power_inverse)

lemma pow2_pos: "0 < pow2 e"
  by (simp add: pow2_powi)

lemma roundTiesToEven_error: "\<bar>of_int (roundTiesToEven x) - x\<bar> \<le> 1 / 2"
proof -
  have "of_int \<lfloor>x\<rfloor> \<le> x" "x < of_int \<lfloor>x\<rfloor> + 1" by linarith+
  then show ?thesis
    by (auto simp: roundTiesToEven_def Let_def abs_le_iff)
qed

lemma exponent_bounds:
  assumes "x \<noteq> 0"
  shows "pow2 (exponent x) \<le> \<bar>x\<bar> \<and> \<bar>x\<bar> < pow2 (exponent x + 1)"
proof -
  obtain p q where pq: "quotient_of \<bar>x\<bar> = (p, q)" by (cases "quotient_of \<bar>x\<bar>")
  then have q: "0 < q" and x: "\<bar>x\<bar> = of_int p / of_int q"
    by (auto simp: quotient_of_denom_pos quotient_of_div)
  from assms have "0 < \<bar>x\<bar>" by simp
  with x q have p: "0 < p" by (simp add: zero_less_divide_iff)
  let ?e = "bitlen p - bitlen q"
  from bitlen_bounds [OF p] have bp: "2 ^ nat (bitlen p - 1) \<le> p" "p < 2 ^ nat (bitlen p)" by auto
  from bitlen_bounds [OF q] have bq: "2 ^ nat (bitlen q - 1) \<le> q" "q < 2 ^ nat (bitlen q)" by auto
  have p1: "1 \<le> bitlen p" and q1: "1 \<le> bitlen q"
    using p q by (auto simp: bitlen_alt_def)
  have P: "(2::rat) powi (bitlen p - 1) \<le> of_int p" "of_int p < (2::rat) powi (bitlen p)"
  proof -
    have "(2::rat) powi (bitlen p - 1) = of_int (2 ^ nat (bitlen p - 1))"
      using p1 by (simp add: power_int_def)
    also have "\<dots> \<le> of_int p" using bp(1) by (simp only: of_int_le_iff)
    finally show "(2::rat) powi (bitlen p - 1) \<le> of_int p" .
    have "of_int p < (of_int (2 ^ nat (bitlen p)) :: rat)" using bp(2) by (simp only: of_int_less_iff)
    also have "\<dots> = 2 powi (bitlen p)" using p1 by (simp add: power_int_def)
    finally show "of_int p < (2::rat) powi (bitlen p)" .
  qed
  have Q: "(2::rat) powi (bitlen q - 1) \<le> of_int q" "of_int q < (2::rat) powi (bitlen q)"
  proof -
    have "(2::rat) powi (bitlen q - 1) = of_int (2 ^ nat (bitlen q - 1))"
      using q1 by (simp add: power_int_def)
    also have "\<dots> \<le> of_int q" using bq(1) by (simp only: of_int_le_iff)
    finally show "(2::rat) powi (bitlen q - 1) \<le> of_int q" .
    have "of_int q < (of_int (2 ^ nat (bitlen q)) :: rat)" using bq(2) by (simp only: of_int_less_iff)
    also have "\<dots> = 2 powi (bitlen q)" using q1 by (simp add: power_int_def)
    finally show "of_int q < (2::rat) powi (bitlen q)" .
  qed
  have qpos: "(0::rat) < of_int q" using q by simp
  have upper: "\<bar>x\<bar> < pow2 (?e + 1)"
  proof -
    have "of_int p * (2::rat) powi (bitlen q - 1) < 2 powi (bitlen p) * of_int q"
      using P(2) Q(1) p by (intro mult_less_le_imp_less) simp_all
    then have "of_int p / of_int q < (2::rat) powi (bitlen p) / 2 powi (bitlen q - 1)"
      using qpos by (simp add: field_simps)
    also have "\<dots> = 2 powi (?e + 1)"
      by (simp add: power_int_diff power_int_add)
    finally show ?thesis by (simp add: x pow2_powi)
  qed
  have lower: "pow2 (?e - 1) \<le> \<bar>x\<bar>"
  proof -
    have "(2::rat) powi (bitlen p - 1) * of_int q \<le> of_int p * 2 powi (bitlen q)"
      using P(1) Q(2) qpos p by (intro mult_mono) simp_all
    then have "(2::rat) powi (bitlen p - 1) / 2 powi (bitlen q) \<le> of_int p / of_int q"
      using qpos by (simp add: field_simps)
    moreover have "(2::rat) powi (bitlen p - 1) / 2 powi (bitlen q) = 2 powi (?e - 1)"
      by (simp add: power_int_diff)
    ultimately show ?thesis by (simp add: x pow2_powi)
  qed
  have ex: "exponent x = (if pow2 ?e \<le> \<bar>x\<bar> then ?e else ?e - 1)"
    by (simp add: exponent_def pq Let_def)
  show ?thesis
  proof (cases "pow2 ?e \<le> \<bar>x\<bar>")
    case True
    with upper ex show ?thesis by simp
  next
    case False
    with lower ex show ?thesis by simp
  qed
qed

lemma binary64_nearest:
  "\<bar>binary64 x - x\<bar> \<le> pow2 (max (exponent x) (- 1022) - 52) / 2"
proof (cases "x = 0")
  case True
  then show ?thesis using pow2_pos [of "max (exponent x) (- 1022) - 52"] by (simp add: binary64_def)
next
  case False
  let ?u = "pow2 (max (exponent x) (- 1022) - 52)"
  have u: "0 < ?u" by (rule pow2_pos)
  have "binary64 x - x = (of_int (roundTiesToEven (x / ?u)) - x / ?u) * ?u"
    using False u by (simp add: binary64_def Let_def field_simps)
  then have "\<bar>binary64 x - x\<bar> = \<bar>of_int (roundTiesToEven (x / ?u)) - x / ?u\<bar> * ?u"
    using u by (simp add: abs_mult)
  also have "\<dots> \<le> 1 / 2 * ?u"
    using u roundTiesToEven_error [of "x / ?u"] by (intro mult_right_mono) simp_all
  finally show ?thesis by simp
qed

lemma binary64_significand:
  assumes "x \<noteq> 0" and "- 1022 \<le> exponent x"
  shows "binary64 x = of_int (roundTiesToEven (x / pow2 (exponent x - 52))) * pow2 (exponent x - 52) \<and>
         \<bar>roundTiesToEven (x / pow2 (exponent x - 52))\<bar> \<le> 2 ^ 53"
proof -
  let ?u = "pow2 (exponent x - 52)"
  let ?m = "roundTiesToEven (x / ?u)"
  have u: "0 < ?u" by (rule pow2_pos)
  have eq: "binary64 x = of_int ?m * ?u"
    using assms by (simp add: binary64_def Let_def max_def)
  have "pow2 (exponent x + 1) = 2 ^ 53 * ?u"
    by (simp add: pow2_powi power_int_diff power_int_add)
  with exponent_bounds [OF assms(1)] have "\<bar>x\<bar> < 2 ^ 53 * ?u" by simp
  then have "\<bar>x / ?u\<bar> < 2 ^ 53" using u by (simp add: field_simps abs_mult)
  moreover have "\<bar>of_int ?m\<bar> \<le> \<bar>of_int ?m - x / ?u\<bar> + \<bar>x / ?u\<bar>" by linarith
  ultimately have "\<bar>(of_int ?m :: rat)\<bar> < 2 ^ 53 + 1 / 2"
    using roundTiesToEven_error [of "x / ?u"] by linarith
  then have "(of_int \<bar>?m\<bar> :: rat) < of_int (2 ^ 53 + 1)" by simp
  then have "\<bar>?m\<bar> < 2 ^ 53 + 1" by (simp only: of_int_less_iff)
  with eq show ?thesis by simp
qed

section \<open>Files that are not images\<close>

lemma png_startsWith_image: "startsWith ''image/png'' ''image/''"
  by (simp add: startsWith_def)

lemma convertPngToJpg_type:
  "convertPngToJpg env f = Resolved g \<Longrightarrow> type' f = ''image/png'' \<Longrightarrow>
   startsWith (type' g) ''image/''"
  by (auto simp: convertPngToJpg_def newFile_def startsWith_def
           split: option.splits if_splits)

text \<open>
  C2. When the media type of the file after the optional PNG conversion does not begin
  with \<open>image/\<close>, \<open>compressImage\<close> makes no call of the compression library and
  returns the file it was given, with \<open>isCompressed = false\<close> and
  \<open>compressedSize = originalSize\<close>.
\<close>

theorem compressImage_non_image:
  assumes "(if type' f = ''image/png'' then convertPngToJpg env f else Resolved f)
             = Resolved currentFile"
    and "\<not> startsWith (type' currentFile) ''image/''"
  shows "compressImage env f fn =
           ([], Resolved \<lparr>file' = f, originalSize = size' f, compressedSize = size' f,
                           isCompressed = False, folderName = fn\<rparr>)"
proof (cases "type' f = ''image/png''")
  case True
  with assms(1) have "convertPngToJpg env f = Resolved currentFile" by simp
  from convertPngToJpg_type [OF this True] assms(2) show ?thesis by simp
next
  case False
  with assms(1) have "currentFile = f" by simp
  with assms show ?thesis by (simp add: compressImage_def)
qed

text \<open>Witness: a text file of 2000000 bytes.\<close>

theorem compressImage_non_image_witness:
  "(if type' textFile = ''image/png''
    then convertPngToJpg idleBrowser
           textFile
    else Resolved textFile)
     = Resolved textFile \<and>
   \<not> startsWith (type' textFile) ''image/'' \<and>
   compressImage idleBrowser
       textFile ''docs'' =
     ([], Resolved \<lparr>file' = textFile,
                     originalSize = 2000000, compressedSize = 2000000,
                     isCompressed = False, folderName = ''docs''\<rparr>)"
  using compressImage_non_image
    [where f = "textFile"
       and env = "idleBrowser"
       and currentFile = "textFile"
       and fn = "''docs''"]
  by (simp add: textFile_def exampleFile_def idleBrowser_def exampleBrowser_def startsWith_def)

section \<open>The retry loop\<close>

text \<open>One pass of the loop, by the outcome of the call it makes.\<close>

lemma compressLoop_unfold_stop:
  "\<not> (size' cf > 500 * 1024 \<and> a < maxAttempts) \<Longrightarrow> compressLoop env cur q cf a = ([], Resolved cf)"
  by (subst compressLoop.simps) auto

lemma compressLoop_unfold_Resolved:
  "size' cf > 500 * 1024 \<Longrightarrow> a < maxAttempts \<Longrightarrow>
   imageCompression env cur (compressionOptions q) = Resolved r \<Longrightarrow>
   compressLoop env cur q cf a =
     ((cur, compressionOptions q) # fst (compressLoop env cur (num_sub q (binary64 (2 / 10))) r (a + 1)),
      snd (compressLoop env cur (num_sub q (binary64 (2 / 10))) r (a + 1)))"
  by (subst compressLoop.simps) (simp add: split_beta)

lemma compressLoop_unfold_Rejected:
  "size' cf > 500 * 1024 \<Longrightarrow> a < maxAttempts \<Longrightarrow>
   imageCompression env cur (compressionOptions q) = Rejected e \<Longrightarrow>
   compressLoop env cur q cf a = ([(cur, compressionOptions q)], Resolved cf)"
  by (subst compressLoop.simps) simp

lemma compressLoop_unfold_Pending:
  "size' cf > 500 * 1024 \<Longrightarrow> a < maxAttempts \<Longrightarrow>
   imageCompression env cur (compressionOptions q) = Pending \<Longrightarrow>
   compressLoop env cur q cf a = ([(cur, compressionOptions q)], Pending)"
  by (subst compressLoop.simps) simp

text \<open>
  The variables \<open>quality\<close> and \<open>attempts\<close> move together, so every call is made on
  \<open>currentFile\<close>, with the quality that belongs to the number of the attempt.
\<close>

lemma compressLoop_calls:
  "q = qualityAfter a \<Longrightarrow>
   \<exists>n. a + n \<le> max a maxAttempts \<and>
       fst (compressLoop env cur q cf a) =
         map (\<lambda>j. (cur, compressionOptions (qualityAfter j))) [a..<a + n]"
proof (induction env cur q cf a rule: compressLoop.induct)
  case (1 env cur q cf a)
  show ?case
  proof (cases "size' cf > 500 * 1024 \<and> a < maxAttempts")
    case False
    then show ?thesis by (intro exI [of _ 0]) (simp add: compressLoop_unfold_stop)
  next
    case True
    show ?thesis
    proof (cases "imageCompression env cur (compressionOptions q)")
      case (Resolved r)
      have "num_sub q (binary64 (2 / 10)) = qualityAfter (a + 1)"
        using "1.prems" by simp
      from "1.IH" [OF True refl Resolved this] obtain n where
        n: "a + 1 + n \<le> max (a + 1) maxAttempts"
        "fst (compressLoop env cur (num_sub q (binary64 (2 / 10))) r (a + 1)) =
           map (\<lambda>j. (cur, compressionOptions (qualityAfter j))) [a + 1..<a + 1 + n]"
        by blast
      have "fst (compressLoop env cur q cf a) =
          (cur, compressionOptions q) #
            fst (compressLoop env cur (num_sub q (binary64 (2 / 10))) r (a + 1))"
        using True Resolved by (simp add: compressLoop_unfold_Resolved)
      also have "\<dots> = map (\<lambda>j. (cur, compressionOptions (qualityAfter j))) [a..<a + Suc n]"
        unfolding n(2) using "1.prems" by (simp add: upt_rec [of a])
      finally show ?thesis using n(1) True by (intro exI [of _ "Suc n"]) auto
    next
      case (Rejected e)
      then show ?thesis using True "1.prems"
        by (intro exI [of _ "Suc 0"]) (simp add: compressLoop_unfold_Rejected)
    next
      case Pending
      then show ?thesis using True "1.prems"
        by (intro exI [of _ "Suc 0"]) (simp add: compressLoop_unfold_Pending)
    qed
  qed
qed

lemma compressLoop_all_oversized:
  assumes all: "\<forall>k<maxAttempts. \<exists>r.
      imageCompression env cur (compressionOptions (qualityAfter k)) = Resolved r \<and>
      size' r > 500 * 1024"
  shows "a < maxAttempts \<Longrightarrow> size' cf > 500 * 1024 \<Longrightarrow>
         compressLoop env cur (qualityAfter a) cf a =
           (map (\<lambda>k. (cur, compressionOptions (qualityAfter k))) [a..<maxAttempts],
            imageCompression env cur (compressionOptions (qualityAfter (maxAttempts - 1))))"
proof (induction "maxAttempts - a" arbitrary: a cf)
  case 0
  then show ?case by simp
next
  case (Suc d)
  from all Suc.prems(1) obtain r where
    r: "imageCompression env cur (compressionOptions (qualityAfter a)) = Resolved r"
    and big: "size' r > 500 * 1024"
    by blast
  have step: "compressLoop env cur (qualityAfter a) cf a =
      ((cur, compressionOptions (qualityAfter a)) # fst (compressLoop env cur (qualityAfter (Suc a)) r (Suc a)),
       snd (compressLoop env cur (qualityAfter (Suc a)) r (Suc a)))"
    using compressLoop_unfold_Resolved [OF Suc.prems(2) Suc.prems(1) r] by simp
  show ?case
  proof (cases "Suc a < maxAttempts")
    case True
    from Suc.hyps(2) have "d = maxAttempts - Suc a" by simp
    from Suc.hyps(1) [OF this True big] show ?thesis
      using Suc.prems(1) by (simp add: step upt_rec [of a])
  next
    case False
    with Suc.prems(1) have up: "[a..<maxAttempts] = [a]" and last: "maxAttempts - 1 = a"
      by (simp_all add: upt_rec [of a])
    have stop: "compressLoop env cur (qualityAfter (Suc a)) r (Suc a) = ([], Resolved r)"
      using False by (simp add: compressLoop_unfold_stop)
    show ?thesis unfolding step stop up last using r by simp
  qed
qed

text \<open>\<open>compressImage\<close> once the optional conversion has resolved.\<close>

lemma compressImage_converted:
  assumes "(if type' f = ''image/png'' then convertPngToJpg env f else Resolved f) = Resolved cur"
  shows "compressImage env f fn =
    (if startsWith (type' cur) ''image/'' \<and> size' cur > 500 * 1024 then
       (fst (compressLoop env cur (binary64 (9 / 10)) cur 0),
        case snd (compressLoop env cur (binary64 (9 / 10)) cur 0) of
          Resolved c \<Rightarrow> Resolved \<lparr>file' = c, originalSize = size' f, compressedSize = size' c,
                                    isCompressed = True, folderName = fn\<rparr>
        | Rejected e \<Rightarrow> Rejected e
        | Pending \<Rightarrow> Pending)
     else ([], Resolved \<lparr>file' = cur, originalSize = size' f, compressedSize = size' cur,
                         isCompressed = False, folderName = fn\<rparr>))"
  using assms unfolding compressImage_def Let_def
  by (simp split: prod.splits promise.splits)

lemma compressImage_calls:
  assumes "(if type' f = ''image/png'' then convertPngToJpg env f else Resolved f) = Resolved cur"
  shows "\<exists>n\<le>maxAttempts. fst (compressImage env f fn) =
           map (\<lambda>j. (cur, compressionOptions (qualityAfter j))) [0..<n]"
proof (cases "startsWith (type' cur) ''image/'' \<and> size' cur > 500 * 1024")
  case False
  then have "fst (compressImage env f fn) = []"
    by (auto simp: compressImage_converted [OF assms])
  then show ?thesis by (intro exI [of _ 0]) simp
next
  case True
  from compressLoop_calls [of "binary64 (9 / 10)" 0 env cur cur]
  obtain n where n: "n \<le> maxAttempts"
    "fst (compressLoop env cur (binary64 (9 / 10)) cur 0) =
       map (\<lambda>j. (cur, compressionOptions (qualityAfter j))) [0..<n]"
    by auto
  have "fst (compressImage env f fn) = fst (compressLoop env cur (binary64 (9 / 10)) cur 0)"
    using True by (simp add: compressImage_converted [OF assms])
  with n show ?thesis by auto
qed

text \<open>The five qualities, and the binary64 values of the decimal literals near them.\<close>

lemma qualityAfter_values:
  "map qualityAfter [0..<5] =
     [8106479329266893 / 2 ^ 53, 6305039478318694 / 2 ^ 53, 9007199254740991 / 2 ^ 54,
      5404319552844594 / 2 ^ 54, 7205759403792788 / 2 ^ 56]"
  by code_simp

lemma binary64_decimals:
  "binary64 (9 / 10) = 8106479329266893 / 2 ^ 53"
  "binary64 (7 / 10) = 6305039478318694 / 2 ^ 53"
  "binary64 (5 / 10) = 9007199254740992 / 2 ^ 54"
  "binary64 (3 / 10) = 5404319552844595 / 2 ^ 54"
  "binary64 (1 / 10) = 7205759403792794 / 2 ^ 56"
  by code_simp+


text \<open>
  An example run: a JPEG of 2000000 bytes, and a library that returns 600000 bytes at
  every quality.
\<close>

lemma example_all_oversized:
  "\<forall>k<maxAttempts. \<exists>r.
     imageCompression oversizingBrowser bigJpeg (compressionOptions (qualityAfter k)) = Resolved r \<and>
     size' r > 500 * 1024"
  by (simp add: bigJpeg_def exampleFile_def oversizingBrowser_def stillOversized_def
        exampleBrowser_def)

lemma example_conv:
  "(if type' bigJpeg = ''image/png'' then convertPngToJpg oversizingBrowser bigJpeg
    else Resolved bigJpeg) = Resolved bigJpeg"
  "startsWith (type' bigJpeg) ''image/''"
  "size' bigJpeg > 500 * 1024"
  by (simp_all add: bigJpeg_def exampleFile_def oversizingBrowser_def stillOversized_def
        exampleBrowser_def startsWith_def)

lemma example_calls:
  "fst (compressImage oversizingBrowser bigJpeg ''A'') =
     map (\<lambda>k. (bigJpeg, compressionOptions (qualityAfter k))) [0..<5]"
proof -
  have "compressLoop oversizingBrowser bigJpeg (qualityAfter 0) bigJpeg 0 =
      (map (\<lambda>k. (bigJpeg, compressionOptions (qualityAfter k))) [0..<maxAttempts],
       imageCompression oversizingBrowser bigJpeg (compressionOptions (qualityAfter (maxAttempts - 1))))"
    by (rule compressLoop_all_oversized [OF example_all_oversized])
       (simp_all add: maxAttempts_def bigJpeg_def exampleFile_def oversizingBrowser_def
             stillOversized_def exampleBrowser_def)
  then show ?thesis
    using example_conv(2,3)
    by (simp add: compressImage_converted [OF example_conv(1)] maxAttempts_def)
qed

lemma example_qualities:
  "map (quality \<circ> snd) (fst (compressImage oversizingBrowser bigJpeg ''A'')) =
     [8106479329266893 / 2 ^ 53, 6305039478318694 / 2 ^ 53, 9007199254740991 / 2 ^ 54,
      5404319552844594 / 2 ^ 54, 7205759403792788 / 2 ^ 56]"
proof -
  have "map (quality \<circ> snd) (fst (compressImage oversizingBrowser bigJpeg ''A'')) = map qualityAfter [0..<5]"
    unfolding example_calls by (simp add: comp_def compressionOptions_def)
  then show ?thesis by (simp only: qualityAfter_values)
qed

text \<open>
  C1, as amended. For a file that is, after the optional PNG conversion, an image of
  more than 500 KiB, \<open>compressImage\<close> makes at least one and at most 5 calls of the
  re-encode operation, and the qualities it passes are, in order, the first values of
  the sequence that starts at the binary64 value of 0.9 and subtracts the binary64
  value of 0.2 in binary64 arithmetic: 0.9, 0.7, 0.49999999999999994,
  0.29999999999999993, 0.09999999999999992.
\<close>

theorem compressImage_attempts:
  assumes "(if type' f = ''image/png'' then convertPngToJpg env f else Resolved f) = Resolved cur"
    and "startsWith (type' cur) ''image/''" and "size' cur > 500 * 1024"
  shows "1 \<le> length (fst (compressImage env f fn)) \<and>
         length (fst (compressImage env f fn)) \<le> 5 \<and>
         map (quality \<circ> snd) (fst (compressImage env f fn)) =
           take (length (fst (compressImage env f fn))) (map qualityAfter [0..<5]) \<and>
         map qualityAfter [0..<5] =
           [8106479329266893 / 2 ^ 53, 6305039478318694 / 2 ^ 53, 9007199254740991 / 2 ^ 54,
            5404319552844594 / 2 ^ 54, 7205759403792788 / 2 ^ 56]"
proof -
  from compressImage_calls [OF assms(1)] obtain n where n: "n \<le> maxAttempts"
    "fst (compressImage env f fn) = map (\<lambda>j. (cur, compressionOptions (qualityAfter j))) [0..<n]"
    by blast
  have len: "length (fst (compressImage env f fn)) = n" by (simp add: n(2))
  have "map (quality \<circ> snd) (fst (compressImage env f fn)) = map qualityAfter [0..<n]"
    by (simp add: n(2) compressionOptions_def comp_def)
  also have "\<dots> = take n (map qualityAfter [0..<5])"
    using n(1) by (simp add: take_map maxAttempts_def min_def)
  finally have q: "map (quality \<circ> snd) (fst (compressImage env f fn)) =
      take n (map qualityAfter [0..<5])" .
  have "fst (compressImage env f fn) = fst (compressLoop env cur (binary64 (9 / 10)) cur 0)"
    using assms(2,3) by (simp add: compressImage_converted [OF assms(1)])
  moreover have "fst (compressLoop env cur (binary64 (9 / 10)) cur 0) \<noteq> []"
    using assms(3)
    by (cases "imageCompression env cur (compressionOptions (binary64 (9 / 10)))")
       (simp_all add: compressLoop_unfold_Resolved compressLoop_unfold_Rejected
          compressLoop_unfold_Pending maxAttempts_def)
  ultimately have "1 \<le> n" using len by (cases n) auto
  with n(1) q len qualityAfter_values show ?thesis by (simp only: maxAttempts_def)
qed

theorem compressImage_attempts_witness:
  "(if type' bigJpeg = ''image/png'' then convertPngToJpg oversizingBrowser bigJpeg
    else Resolved bigJpeg) = Resolved bigJpeg \<and>
   startsWith (type' bigJpeg) ''image/'' \<and>
   size' bigJpeg > 500 * 1024 \<and>
   length (fst (compressImage oversizingBrowser bigJpeg ''A'')) \<le> 5"
  using compressImage_attempts
    [where f = "bigJpeg" and env = "oversizingBrowser" and cur = "bigJpeg" and fn = "''A''"]
  by (simp add: bigJpeg_def exampleFile_def oversizingBrowser_def stillOversized_def
        exampleBrowser_def startsWith_def)

text \<open>
  The claim as stated fails in the example run: the third, fourth and fifth quality are
  not the numbers 0.5, 0.3 and 0.1, neither as binary64 literals nor as decimal fractions.
\<close>

theorem compressImage_decimal_qualities_counterexample:
  "map (quality \<circ> snd) (fst (compressImage oversizingBrowser bigJpeg ''A'')) =
     [binary64 (9 / 10), binary64 (7 / 10), 9007199254740991 / 2 ^ 54,
      5404319552844594 / 2 ^ 54, 7205759403792788 / 2 ^ 56] \<and>
   map (quality \<circ> snd) (fst (compressImage oversizingBrowser bigJpeg ''A'')) \<noteq>
     [binary64 (9 / 10), binary64 (7 / 10), binary64 (5 / 10), binary64 (3 / 10), binary64 (1 / 10)] \<and>
   map (quality \<circ> snd) (fst (compressImage oversizingBrowser bigJpeg ''A'')) \<noteq>
     [9 / 10, 7 / 10, 5 / 10, 3 / 10, 1 / 10]"
  unfolding example_qualities binary64_decimals by simp

text \<open>
  C3. When each of the 5 attempts resolves with a file that is still larger than
  500 KiB, \<open>compressImage\<close> makes exactly 5 calls and resolves with a
  \<open>ProcessedFile\<close> that holds the result of the fifth call; it is neither rejected
  nor pending.
\<close>

theorem compressImage_all_attempts_oversized:
  assumes "(if type' f = ''image/png'' then convertPngToJpg env f else Resolved f) = Resolved cur"
    and "startsWith (type' cur) ''image/''" and "size' cur > 500 * 1024"
    and "\<forall>k<5. \<exists>r. imageCompression env cur (compressionOptions (qualityAfter k)) = Resolved r
                 \<and> size' r > 500 * 1024"
  shows "\<exists>r. imageCompression env cur (compressionOptions (qualityAfter 4)) = Resolved r \<and>
             size' r > 500 * 1024 \<and>
             length (fst (compressImage env f fn)) = 5 \<and>
             snd (compressImage env f fn) =
               Resolved \<lparr>file' = r, originalSize = size' f, compressedSize = size' r,
                         isCompressed = True, folderName = fn\<rparr>"
proof -
  obtain r where
    r: "imageCompression env cur (compressionOptions (qualityAfter 4)) = Resolved r"
    and big: "size' r > 500 * 1024"
    using assms(4) [rule_format, of 4] by auto
  have "compressLoop env cur (qualityAfter 0) cur 0 =
      (map (\<lambda>k. (cur, compressionOptions (qualityAfter k))) [0..<maxAttempts],
       imageCompression env cur (compressionOptions (qualityAfter (maxAttempts - 1))))"
    using assms(4) by (intro compressLoop_all_oversized assms(3)) (simp_all add: maxAttempts_def)
  then have "compressLoop env cur (binary64 (9 / 10)) cur 0 =
      (map (\<lambda>k. (cur, compressionOptions (qualityAfter k))) [0..<5], Resolved r)"
    using r by (simp add: maxAttempts_def)
  then show ?thesis
    using r big assms(2,3) by (simp add: compressImage_converted [OF assms(1)])
qed

theorem compressImage_all_attempts_oversized_witness:
  "(if type' bigJpeg = ''image/png'' then convertPngToJpg oversizingBrowser bigJpeg
    else Resolved bigJpeg) = Resolved bigJpeg \<and>
   startsWith (type' bigJpeg) ''image/'' \<and>
   size' bigJpeg > 500 * 1024 \<and>
   (\<forall>k. imageCompression oversizingBrowser bigJpeg (compressionOptions (qualityAfter k)) =
          Resolved stillOversized) \<and>
   size' stillOversized > 500 * 1024 \<and>
   length (fst (compressImage oversizingBrowser bigJpeg ''A'')) = 5 \<and>
   snd (compressImage oversizingBrowser bigJpeg ''A'') =
     Resolved \<lparr>file' = stillOversized, originalSize = 2000000, compressedSize = 600000,
               isCompressed = True, folderName = ''A''\<rparr>"
  using compressImage_all_attempts_oversized
    [where f = "bigJpeg" and env = "oversizingBrowser" and cur = "bigJpeg" and fn = "''A''"]
  by (simp add: bigJpeg_def exampleFile_def stillOversized_def oversizingBrowser_def
        exampleBrowser_def startsWith_def)




text \<open>What the flag of a result does say: whether the loop was entered.\<close>

lemma compressImage_flag:
  assumes "(if type' f = ''image/png'' then convertPngToJpg env f else Resolved f) = Resolved cur"
    and "snd (compressImage env f fn) = Resolved r"
  shows "isCompressed r \<longleftrightarrow> startsWith (type' cur) ''image/'' \<and> size' cur > 500 * 1024"
  using assms(2)
  by (auto simp: compressImage_converted [OF assms(1)] split: if_splits promise.splits)

text \<open>
  C5. The flag is set by the \<open>return\<close> after the loop, whatever the loop did. When
  the first attempt is rejected, the loop is left with \<open>compressedFile\<close> still the
  file it started from, and the result carries that file with \<open>isCompressed = true\<close>.
\<close>

theorem compressImage_flag_after_rejected_attempt:
  "compressImage rejectingBrowser bigJpeg ''A'' =
     ([(bigJpeg, compressionOptions (binary64 (9 / 10)))],
      Resolved \<lparr>file' = bigJpeg, originalSize = 2000000, compressedSize = 2000000,
                isCompressed = True, folderName = ''A''\<rparr>)"
proof -
  have conv: "(if type' bigJpeg = ''image/png'' then convertPngToJpg rejectingBrowser bigJpeg
      else Resolved bigJpeg) = Resolved bigJpeg"
    by (simp add: bigJpeg_def exampleFile_def rejectingBrowser_def exampleBrowser_def)
  have "compressLoop rejectingBrowser bigJpeg (binary64 (9 / 10)) bigJpeg 0 =
      ([(bigJpeg, compressionOptions (binary64 (9 / 10)))], Resolved bigJpeg)"
    by (rule compressLoop_unfold_Rejected [where e = "''encoder error''"])
       (simp_all add: bigJpeg_def exampleFile_def rejectingBrowser_def exampleBrowser_def
             maxAttempts_def)
  then show ?thesis
    by (simp add: compressImage_converted [OF conv]) (simp add: bigJpeg_def exampleFile_def
          rejectingBrowser_def exampleBrowser_def startsWith_def)
qed

text \<open>
  The failures that are absorbed: a canvas that gives no blob leaves the file as it is,
  and no call of \<open>compressImage\<close> is rejected.
\<close>

lemma convertPngToJpg_not_rejected: "convertPngToJpg env f \<noteq> Rejected e"
  by (simp add: convertPngToJpg_def split: option.splits)

lemma convertPngToJpg_encoding_failure:
  "decodeImage env f = Some img \<Longrightarrow> toBlob env img ''image/jpeg'' (binary64 (9 / 10)) = None \<Longrightarrow>
   convertPngToJpg env f = Resolved f"
  by (simp add: convertPngToJpg_def)

lemma compressLoop_not_rejected: "snd (compressLoop env cur q cf a) \<noteq> Rejected e"
proof (induction env cur q cf a rule: compressLoop.induct)
  case (1 env cur q cf a)
  show ?case
  proof (cases "size' cf > 500 * 1024 \<and> a < maxAttempts")
    case False
    then show ?thesis by (simp add: compressLoop_unfold_stop)
  next
    case True
    then show ?thesis
      using "1.IH" [OF True refl]
      by (cases "imageCompression env cur (compressionOptions q)")
         (simp_all add: compressLoop_unfold_Resolved compressLoop_unfold_Rejected
            compressLoop_unfold_Pending)
  qed
qed

lemma compressImage_not_rejected: "snd (compressImage env f fn) \<noteq> Rejected e"
proof (cases "if type' f = ''image/png'' then convertPngToJpg env f else Resolved f")
  case (Resolved cur)
  show ?thesis
    using compressLoop_not_rejected [of env cur "binary64 (9 / 10)" cur 0]
    by (auto simp: compressImage_converted [OF Resolved] split: promise.splits)
next
  case (Rejected e')
  then show ?thesis
    using convertPngToJpg_not_rejected [of env f e'] by (simp split: if_splits)
next
  case Pending
  then show ?thesis by (simp add: compressImage_def)
qed

text \<open>
  C4. A file of type \<open>image/png\<close> that the browser cannot decode: the \<open>error\<close>
  event has no handler, the promise of \<open>convertPngToJpg\<close> is never settled, and
  \<open>compressImage\<close> never returns.
\<close>

theorem convertPngToJpg_undecodable_pending:
  "convertPngToJpg undecodingBrowser brokenPng = Pending \<and>
   compressImage undecodingBrowser brokenPng ''A'' = ([], Pending)"
  by (simp add: convertPngToJpg_def compressImage_def brokenPng_def exampleFile_def
        undecodingBrowser_def idleBrowser_def exampleBrowser_def)

text \<open>A conversion that succeeds.\<close>

lemma convertPngToJpg_success:
  "type' f = ''image/png'' \<Longrightarrow> decodeImage env f = Some img \<Longrightarrow>
   toBlob env img ''image/jpeg'' (binary64 (9 / 10)) = Some blob \<Longrightarrow>
   convertPngToJpg env f =
     Resolved \<lparr>size' = size' blob, type' = ''image/jpeg'', bytes = bytes blob,
               name = replace (name f) ''.png'' ''.jpg'', webkitRelativePath = ''''\<rparr>"
  by (simp add: convertPngToJpg_def newFile_def)

text \<open>
  C8. \<open>file.name.replace('.png', '.jpg')\<close> replaces the first \<open>.png\<close> of the name,
  which is not the extension when the name holds \<open>.png\<close> earlier: \<open>logo.png.png\<close>
  becomes \<open>logo.jpg.png\<close>, a file of type \<open>image/jpeg\<close> whose extension is still
  \<open>.png\<close>.
\<close>

theorem convertPngToJpg_name_first_occurrence:
  "convertPngToJpg idleBrowser doubledPng =
   Resolved \<lparr>size' = 300000, type' = ''image/jpeg'', bytes = 0, name = ''logo.jpg.png'',
             webkitRelativePath = ''''\<rparr>"
  by (simp add: convertPngToJpg_def doubledPng_def exampleFile_def idleBrowser_def
        exampleBrowser_def newFile_def)

section \<open>Grouping\<close>

lemma split_nonempty: "split s sep \<noteq> []"
  by (induction s) (auto split: list.splits)

lemma set_firstSeen: "set (firstSeen xs) = set xs"
  by (induction xs) auto

lemma distinct_firstSeen: "distinct (firstSeen xs)"
  by (induction xs) auto

lemma firstSeen_snoc:
  "firstSeen (xs @ [a]) = (if a \<in> set xs then firstSeen xs else firstSeen xs @ [a])"
  by (induction xs) auto

lemma mapSet_new:
  "k \<notin> fst ` set m \<Longrightarrow> mapSet m k v = m @ [(k, v)]"
  by (induction m) auto

lemma mapSet_last:
  "k \<notin> fst ` set m \<Longrightarrow> mapSet (m @ [(k, v)]) k w = m @ [(k, w)]"
  by (induction m) auto

lemma mapSet_present:
  "k \<in> set ks \<Longrightarrow> distinct ks \<Longrightarrow>
   mapSet (map (\<lambda>n. (n, g n)) ks) k v = map (\<lambda>n. (n, if n = k then v else g n)) ks"
  by (induction ks) auto

lemma map_of_tabulate:
  "map_of (map (\<lambda>n. (n, g n)) ks) k = (if k \<in> set ks then Some (g k) else None)"
  by (induction ks) auto

lemma addToFolderMap_grouped:
  "addToFolderMap f (grouped fs) = grouped (fs @ [f])"
proof (cases "firstSegment f \<in> set (map firstSegment fs)")
  case True
  then have has: "mapHas (grouped fs) (firstSegment f)"
    by (simp add: mapHas_def grouped_def map_of_tabulate set_firstSeen)
  have get: "mapGet (grouped fs) (firstSegment f) =
      Some (filter (\<lambda>g. firstSegment g = firstSegment f) fs)"
    using True by (simp add: mapGet_def grouped_def map_of_tabulate set_firstSeen)
  have "addToFolderMap f (grouped fs) =
      mapSet (grouped fs) (firstSegment f) (filter (\<lambda>g. firstSegment g = firstSegment f) fs @ [f])"
    using has get by (simp add: addToFolderMap_def firstSegment_def Let_def)
  also have "\<dots> = grouped (fs @ [f])"
    using True unfolding grouped_def
    by (subst mapSet_present) (auto simp: set_firstSeen distinct_firstSeen firstSeen_snoc)
  finally show ?thesis .
next
  case False
  then have nokey: "firstSegment f \<notin> fst ` set (grouped fs)"
    by (auto simp: grouped_def set_firstSeen)
  then have has: "\<not> mapHas (grouped fs) (firstSegment f)"
    by (simp add: mapHas_def map_of_eq_None_iff)
  have get: "mapGet (grouped fs @ [(firstSegment f, [])]) (firstSegment f) = Some []"
    using nokey by (simp add: mapGet_def map_of_eq_None_iff [THEN iffD2] map_add_def)
  have "addToFolderMap f (grouped fs) = grouped fs @ [(firstSegment f, [f])]"
    using has get nokey
    by (simp add: addToFolderMap_def firstSegment_def [symmetric] Let_def mapSet_new mapSet_last)
  also have "\<dots> = grouped (fs @ [f])"
    using False unfolding grouped_def
    by (auto simp: firstSeen_snoc set_firstSeen filter_empty_conv) (metis imageI)
  finally show ?thesis .
qed

lemma fold_addToFolderMap: "fold addToFolderMap fs [] = grouped fs"
proof (induction fs rule: rev_induct)
  case Nil
  show ?case by (simp add: grouped_def)
next
  case (snoc f fs)
  then show ?case by (simp add: addToFolderMap_grouped)
qed

lemma newFolders_eq: "newFolders uploadedFiles = groupedInOrder uploadedFiles"
  by (simp add: newFolders_def groupedInOrder_def fold_addToFolderMap grouped_def comp_def)

text \<open>
  C6. \<open>handleFolderUpload\<close> groups the files by the first segment of their relative
  path; the groups stand in the order in which their names are first seen, and every
  group holds its files in the order of the input. Files with the paths \<open>A/x.png\<close>,
  \<open>B/y.png\<close>, \<open>A/z.png\<close> give the group \<open>A\<close> with \<open>x.png\<close> and \<open>z.png\<close>, then
  the group \<open>B\<close> with \<open>y.png\<close>.
\<close>

theorem newFolders_grouping:
  "newFolders uploadedFiles = groupedInOrder uploadedFiles \<and>
   handleFolderUpload uploadedFiles prev =
     spread prev @ map Folder (groupedInOrder uploadedFiles) \<and>
   newFolders [fileAx, fileBy, fileAz] =
     [\<lparr>name' = ''A'', files = [fileAx, fileAz], processedFiles = []\<rparr>,
      \<lparr>name' = ''B'', files = [fileBy], processedFiles = []\<rparr>]"
proof -
  have "groupedInOrder [fileAx, fileBy, fileAz] =
     [\<lparr>name' = ''A'', files = [fileAx, fileAz], processedFiles = []\<rparr>,
      \<lparr>name' = ''B'', files = [fileBy], processedFiles = []\<rparr>]"
    by (simp add: groupedInOrder_def firstSegment_def fileAx_def fileBy_def fileAz_def
          exampleFile_def)
  then show ?thesis by (simp add: newFolders_eq handleFolderUpload_def)
qed

section \<open>The folders state under the handlers\<close>

text \<open>
  On an array without holes, \<open>removeFolder\<close> takes out the element at the index and
  nothing else; on any array, what it leaves are elements of the array, in their order.
\<close>

lemma enumerate_filter_below:
  "i < n \<Longrightarrow> Hole \<notin> set xs \<Longrightarrow>
   map snd (filter (\<lambda>(j, s). s \<noteq> Hole \<and> j \<noteq> i) (enumerate n xs)) = xs"
  by (induction xs arbitrary: n) auto

lemma enumerate_filter_at:
  "n \<le> i \<Longrightarrow> Hole \<notin> set xs \<Longrightarrow>
   map snd (filter (\<lambda>(j, s). s \<noteq> Hole \<and> j \<noteq> i) (enumerate n xs)) =
     take (i - n) xs @ drop (Suc (i - n)) xs"
proof (induction xs arbitrary: n)
  case Nil
  show ?case by simp
next
  case (Cons x xs)
  show ?case
  proof (cases "i = n")
    case True
    with Cons.prems show ?thesis by (simp add: enumerate_filter_below)
  next
    case False
    with Cons.prems have "Suc n \<le> i" and "i - n = Suc (i - Suc n)" by simp_all
    with Cons.IH [of "Suc n"] False Cons.prems show ?thesis by auto
  qed
qed

lemma removeFolder_take_drop:
  "Hole \<notin> set prev \<Longrightarrow> removeFolder i prev = take i prev @ drop (Suc i) prev"
  using enumerate_filter_at [of 0 i prev] by (simp add: removeFolder_def)

lemma subseq_enumerate_filter: "subseq (map snd (filter P (enumerate n xs))) xs"
  by (induction xs arbitrary: n) auto

lemma removeFolder_subseq: "subseq (removeFolder i prev) prev"
  by (simp add: removeFolder_def subseq_enumerate_filter)

lemma removeFolder_dense:
  assumes "Hole \<notin> set prev" and "i < length prev"
  shows "removeFolder i prev = take i prev @ drop (Suc i) prev \<and>
         length (removeFolder i prev) = length prev - 1 \<and>
         (\<forall>j<i. removeFolder i prev ! j = prev ! j) \<and>
         (\<forall>j. i \<le> j \<and> j < length prev - 1 \<longrightarrow> removeFolder i prev ! j = prev ! Suc j)"
  using assms by (auto simp: removeFolder_take_drop nth_append min_def)

text \<open>
  The groups of the state under each handler: an upload adds its groups at the end, a
  removal leaves groups out, and the update of \<open>processFiles\<close> changes none, wherever
  it writes.
\<close>

lemma groupsOf_append: "groupsOf (xs @ ys) = groupsOf xs @ groupsOf ys"
  by (simp add: groupsOf_def)

lemma groupsOf_Cons: "groupsOf (x # xs) = groupsOf [x] @ groupsOf xs"
  by (simp add: groupsOf_def)

lemma groupsOf_subseq: "subseq xs ys \<Longrightarrow> subseq (groupsOf xs) (groupsOf ys)"
proof (induction rule: list_emb.induct)
  case (list_emb_Nil ys)
  show ?case by (simp add: groupsOf_def)
next
  case (list_emb_Cons xs ys y)
  then show ?case
    by (subst groupsOf_Cons) (rule list_emb_append2)
next
  case (list_emb_Cons2 x y xs ys)
  then show ?case
    by (subst (1 2) groupsOf_Cons) (auto intro: list_emb_append_mono)
qed

lemma groupsOf_spread: "groupsOf (spread a) = groupsOf a"
  by (induction a) (auto simp: groupsOf_def spread_def)

lemma groupsOf_Folders: "groupsOf (map Folder fds) = map (\<lambda>fd. (name' fd, files fd)) fds"
  by (induction fds) (auto simp: groupsOf_def)

lemma groupsOf_handleFolderUpload:
  "groupsOf (handleFolderUpload uploadedFiles prev) = groupsOf prev @ intake (Select uploadedFiles)"
  by (simp add: handleFolderUpload_def groupsOf_append groupsOf_spread groupsOf_Folders)

lemma groupsOf_update:
  "i < length a \<Longrightarrow> groupsOf [v] = groupsOf [a ! i] \<Longrightarrow> groupsOf (a[i := v]) = groupsOf a"
proof (induction a arbitrary: i)
  case Nil
  then show ?case by simp
next
  case (Cons x a)
  then show ?case by (cases i) (auto simp: groupsOf_def)
qed

lemma groupsOf_Holes: "groupsOf (replicate k Hole) = []"
  by (induction k) (auto simp: groupsOf_def)

lemma groupsOf_setProcessedFiles: "groupsOf (setProcessedFiles i processed prev) = groupsOf prev"
proof (cases "i < length prev")
  case True
  have "groupsOf [withProcessedFiles (readAt (spread prev) i) processed] = groupsOf [spread prev ! i]"
    using True by (auto simp: withProcessedFiles_def readAt_def spread_def groupsOf_def
        split: Slot.splits)
  with True show ?thesis
    by (simp add: setProcessedFiles_def Let_def assignAt_def spread_def [symmetric]
          groupsOf_update groupsOf_spread)
       (simp add: spread_def)
next
  case False
  then have "readAt (spread prev) i = Undefined" by (simp add: readAt_def spread_def)
  with False show ?thesis
    by (simp add: setProcessedFiles_def Let_def assignAt_def groupsOf_append groupsOf_Holes
          groupsOf_spread withProcessedFiles_def)
       (simp add: spread_def groupsOf_def)
qed

lemma groupsOf_processFilesStep:
  "groupsOf (folders (processFilesStep env st)) = groupsOf (folders st)"
  by (auto simp: processFilesStep_def groupsOf_setProcessedFiles
           split: option.splits prod.splits Slot.splits promise.splits)

lemma groupsOf_step:
  "subseq (groupsOf (folders (step env ev st))) (groupsOf (folders st) @ intake ev)"
proof (cases ev)
  case (Select uploadedFiles)
  then show ?thesis by (simp add: groupsOf_handleFolderUpload)
next
  case (Remove index)
  then show ?thesis by (simp add: groupsOf_subseq removeFolder_subseq)
next
  case Process
  then show ?thesis by (simp add: processFiles_def)
next
  case FolderDone
  then show ?thesis by (simp add: groupsOf_processFilesStep)
qed

lemma groupsOf_fold_step:
  "subseq (groupsOf (folders (fold (step env) events st)))
     (groupsOf (folders st) @ concat (map intake events))"
proof (induction events arbitrary: st)
  case Nil
  show ?case by simp
next
  case (Cons ev events)
  have "subseq (groupsOf (folders (step env ev st)) @ concat (map intake events))
      ((groupsOf (folders st) @ intake ev) @ concat (map intake events))"
    by (intro list_emb_append_mono groupsOf_step) simp
  with Cons.IH [of "step env ev st"] show ?case
    by (simp add: subseq_order.trans)
qed

lemma distinct_subseq: "subseq xs ys \<Longrightarrow> distinct ys \<Longrightarrow> distinct xs"
proof (induction rule: list_emb.induct)
  case (list_emb_Nil ys)
  show ?case by simp
next
  case (list_emb_Cons xs ys y)
  then show ?case by simp
next
  case (list_emb_Cons2 x y xs ys)
  then show ?case using list_emb_set [of "(=)" xs ys x] by auto
qed

lemma distinct_names_subseq:
  "subseq gs hs \<Longrightarrow> distinct (map fst hs) \<Longrightarrow> distinct (map fst gs)"
  using distinct_subseq [OF subseq_map [of gs hs fst]] by simp

section \<open>Removing a folder while files are processed\<close>

text \<open>
  An example run in \<open>idleBrowser\<close>: the folders \<open>A\<close>, \<open>B\<close> and \<open>C\<close> are selected,
  \<open>Process Files\<close> is clicked, and \<open>B\<close> is removed while the file of \<open>A\<close> is still
  being converted.
\<close>

lemma newFolders_ABC: "newFolders [fileAx, fileBy, fileCw] = [folderA, folderB, folderC]"
  by (simp add: newFolders_eq groupedInOrder_def firstSegment_def folderA_def folderB_def
        folderC_def fileAx_def fileBy_def fileCw_def exampleFile_def)

lemma processFolder_examples:
  "processFolder idleBrowser ''A'' [fileAx] [] = Resolved [converted ''x.jpg'' 10 ''A'']"
  "processFolder idleBrowser ''B'' [fileBy] [] = Resolved [converted ''y.jpg'' 20 ''B'']"
  "processFolder idleBrowser ''C'' [fileCw] [] = Resolved [converted ''w.jpg'' 40 ''C'']"
  by (simp_all add: compressImage_def convertPngToJpg_def newFile_def startsWith_def
        converted_def fileAx_def fileBy_def fileCw_def exampleFile_def idleBrowser_def
        exampleBrowser_def)

lemma run_selected:
  "fold (step idleBrowser) [Select [fileAx, fileBy, fileCw], Process, Remove 1] initialApp =
     \<lparr>folders = [Folder folderA, Folder folderC], isProcessing = True,
      running = Some ([Folder folderA, Folder folderB, Folder folderC], 0)\<rparr>"
  by (simp add: initialApp_def handleFolderUpload_def spread_def newFolders_ABC
        processButtonShown_def processFiles_def removeFolder_def folderA_def folderB_def
        folderC_def)

lemma run_first:
  "fold (step idleBrowser) [Select [fileAx, fileBy, fileCw], Process, Remove 1, FolderDone]
     initialApp =
     \<lparr>folders = [Folder (folderA\<lparr>processedFiles := [converted ''x.jpg'' 10 ''A'']\<rparr>),
                 Folder folderC],
      isProcessing = True,
      running = Some ([Folder folderA, Folder folderB, Folder folderC], 1)\<rparr>"
proof -
  have "fold (step idleBrowser) [Select [fileAx, fileBy, fileCw], Process, Remove 1, FolderDone]
      initialApp =
    processFilesStep idleBrowser
      (fold (step idleBrowser) [Select [fileAx, fileBy, fileCw], Process, Remove 1] initialApp)"
    by simp
  also have "\<dots> = \<lparr>folders = [Folder (folderA\<lparr>processedFiles := [converted ''x.jpg'' 10 ''A'']\<rparr>),
                 Folder folderC],
      isProcessing = True,
      running = Some ([Folder folderA, Folder folderB, Folder folderC], 1)\<rparr>"
    unfolding run_selected
    by (simp add: processFilesStep_def readAt_def setProcessedFiles_def spread_def assignAt_def
          withProcessedFiles_def folderA_def processFolder_examples
          del: processFolder.simps)
  finally show ?thesis .
qed


lemma run_second:
  "fold (step idleBrowser)
     [Select [fileAx, fileBy, fileCw], Process, Remove 1, FolderDone, FolderDone] initialApp =
     \<lparr>folders = [Folder (folderA\<lparr>processedFiles := [converted ''x.jpg'' 10 ''A'']\<rparr>),
                 Folder (folderC\<lparr>processedFiles := [converted ''y.jpg'' 20 ''B'']\<rparr>)],
      isProcessing = True,
      running = Some ([Folder folderA, Folder folderB, Folder folderC], 2)\<rparr>"
proof -
  have "fold (step idleBrowser)
      [Select [fileAx, fileBy, fileCw], Process, Remove 1, FolderDone, FolderDone] initialApp =
    processFilesStep idleBrowser
      (fold (step idleBrowser) [Select [fileAx, fileBy, fileCw], Process, Remove 1, FolderDone]
         initialApp)"
    by simp
  also have "\<dots> =
     \<lparr>folders = [Folder (folderA\<lparr>processedFiles := [converted ''x.jpg'' 10 ''A'']\<rparr>),
                 Folder (folderC\<lparr>processedFiles := [converted ''y.jpg'' 20 ''B'']\<rparr>)],
      isProcessing = True,
      running = Some ([Folder folderA, Folder folderB, Folder folderC], 2)\<rparr>"
    unfolding run_first
    by (simp add: processFilesStep_def readAt_def setProcessedFiles_def spread_def assignAt_def
          withProcessedFiles_def folderB_def processFolder_examples
          del: processFolder.simps)
  finally show ?thesis .
qed

lemma run_third:
  "fold (step idleBrowser)
     [Select [fileAx, fileBy, fileCw], Process, Remove 1, FolderDone, FolderDone, FolderDone]
     initialApp =
     \<lparr>folders = [Folder (folderA\<lparr>processedFiles := [converted ''x.jpg'' 10 ''A'']\<rparr>),
                 Folder (folderC\<lparr>processedFiles := [converted ''y.jpg'' 20 ''B'']\<rparr>),
                 Bare [converted ''w.jpg'' 40 ''C'']],
      isProcessing = True,
      running = Some ([Folder folderA, Folder folderB, Folder folderC], 3)\<rparr>"
proof -
  have "fold (step idleBrowser)
      [Select [fileAx, fileBy, fileCw], Process, Remove 1, FolderDone, FolderDone, FolderDone]
      initialApp =
    processFilesStep idleBrowser
      (fold (step idleBrowser)
         [Select [fileAx, fileBy, fileCw], Process, Remove 1, FolderDone, FolderDone]
         initialApp)"
    by simp
  also have "\<dots> =
     \<lparr>folders = [Folder (folderA\<lparr>processedFiles := [converted ''x.jpg'' 10 ''A'']\<rparr>),
                 Folder (folderC\<lparr>processedFiles := [converted ''y.jpg'' 20 ''B'']\<rparr>),
                 Bare [converted ''w.jpg'' 40 ''C'']],
      isProcessing = True,
      running = Some ([Folder folderA, Folder folderB, Folder folderC], 3)\<rparr>"
    unfolding run_second
    by (simp add: processFilesStep_def readAt_def setProcessedFiles_def spread_def assignAt_def
          withProcessedFiles_def folderC_def processFolder_examples
          del: processFolder.simps)
  finally show ?thesis .
qed

text \<open>
  C9. The call of \<open>processFiles\<close> that is under way reads the folders from the list of
  its closure and writes by its loop index into the state of the moment. The folder
  \<open>B\<close>, removed at index 1 while \<open>A\<close> is processed, is processed all the same, and
  its result is written at index 1 of the state, which is the folder \<open>C\<close> by then: the
  archive made at that moment holds the file of \<open>B\<close> under the name of \<open>C\<close>. The
  result of \<open>C\<close> is then written past the end of the state, as an element with
  \<open>processedFiles\<close> and no name or files.
\<close>

theorem removeFolder_during_run:
  "folders (fold (step idleBrowser)
      [Select [fileAx, fileBy, fileCw], Process, Remove 1, FolderDone, FolderDone] initialApp) =
     [Folder (folderA\<lparr>processedFiles := [converted ''x.jpg'' 10 ''A'']\<rparr>),
      Folder (folderC\<lparr>processedFiles := [converted ''y.jpg'' 20 ''B'']\<rparr>)] \<and>
   downloadProcessedFiles (folders (fold (step idleBrowser)
      [Select [fileAx, fileBy, fileCw], Process, Remove 1, FolderDone, FolderDone] initialApp)) =
     Inr [(Some ''A'', ''x.jpg'', file' (converted ''x.jpg'' 10 ''A'')),
          (Some ''C'', ''y.jpg'', file' (converted ''y.jpg'' 20 ''B''))] \<and>
   folders (fold (step idleBrowser)
      [Select [fileAx, fileBy, fileCw], Process, Remove 1, FolderDone, FolderDone, FolderDone]
      initialApp) =
     [Folder (folderA\<lparr>processedFiles := [converted ''x.jpg'' 10 ''A'']\<rparr>),
      Folder (folderC\<lparr>processedFiles := [converted ''y.jpg'' 20 ''B'']\<rparr>),
      Bare [converted ''w.jpg'' 40 ''C'']]"
  unfolding run_second run_third
  by (simp add: downloadProcessedFiles_def converted_def folderA_def folderC_def)

section \<open>Names and membership of the groups\<close>

lemma distinct_names_newFolders: "distinct (map name' (groupedInOrder uploadedFiles))"
  by (simp add: groupedInOrder_def comp_def distinct_firstSeen)

text \<open>
  C7, as amended. The groups that one call of \<open>handleFolderUpload\<close> creates have
  pairwise distinct names. In every state that a sequence of events reaches (folders
  selected, a folder removed, \<open>Process Files\<close> clicked, the call of \<open>processFiles\<close>
  coming to the end of a folder, in any order), the groups of the state, each with its
  name and its files, are groups of the state at the start or groups that an upload
  brought in, in that order and with their files as they were; so their names are
  pairwise distinct as long as the uploads bring no name twice. An upload keeps the
  groups it finds and adds its own at the end, a removal only leaves groups out (on an
  array without holes, the one at its index), and the update of \<open>processFiles\<close>
  changes no group. An element without a name, which that update can append, is not
  counted as a group.
\<close>

theorem folders_names_and_membership:
  "distinct (map name' (newFolders uploadedFiles)) \<and>
   subseq (groupsOf (folders (fold (step env) events st)))
     (groupsOf (folders st) @ concat (map intake events)) \<and>
   (distinct (map fst (groupsOf (folders st) @ concat (map intake events))) \<longrightarrow>
      distinct (map fst (groupsOf (folders (fold (step env) events st))))) \<and>
   groupsOf (handleFolderUpload uploadedFiles prev) =
     groupsOf prev @ map (\<lambda>fd. (name' fd, files fd)) (newFolders uploadedFiles) \<and>
   (distinct (map fst (groupsOf prev)) \<and>
    set (map name' (newFolders uploadedFiles)) \<inter> set (map fst (groupsOf prev)) = {} \<longrightarrow>
      distinct (map fst (groupsOf (handleFolderUpload uploadedFiles prev)))) \<and>
   subseq (groupsOf (removeFolder i prev)) (groupsOf prev) \<and>
   (distinct (map fst (groupsOf prev)) \<longrightarrow>
      distinct (map fst (groupsOf (removeFolder i prev)))) \<and>
   (Hole \<notin> set prev \<longrightarrow> removeFolder i prev = take i prev @ drop (Suc i) prev) \<and>
   groupsOf (setProcessedFiles i processed prev) = groupsOf prev"
proof -
  have d: "distinct (map name' (newFolders uploadedFiles))"
    by (simp add: newFolders_eq distinct_names_newFolders)
  have names: "map fst (map (\<lambda>fd. (name' fd, files fd)) (newFolders uploadedFiles)) =
      map name' (newFolders uploadedFiles)"
    by (simp add: comp_def)
  have up: "distinct (map fst (groupsOf (handleFolderUpload uploadedFiles prev)))"
    if "distinct (map fst (groupsOf prev))"
      "set (map name' (newFolders uploadedFiles)) \<inter> set (map fst (groupsOf prev)) = {}"
    using that d unfolding groupsOf_handleFolderUpload intake.simps map_append names
    by (simp add: Int_commute)
  have rm: "subseq (groupsOf (removeFolder i prev)) (groupsOf prev)"
    by (rule groupsOf_subseq [OF removeFolder_subseq])
  show ?thesis
    using d up rm groupsOf_fold_step [of env events st]
      distinct_names_subseq [OF groupsOf_fold_step [of env events st]]
      distinct_names_subseq [OF rm]
    by (simp add: groupsOf_handleFolderUpload groupsOf_setProcessedFiles removeFolder_take_drop)
qed

theorem folders_names_and_membership_witness:
  "distinct (map fst (groupsOf (folders initialApp) @
      concat (map intake [Select [fileAx, fileBy, fileCw], Process, Remove 1, FolderDone,
                           FolderDone, FolderDone]))) \<and>
   distinct (map fst (groupsOf (folders (fold (step idleBrowser)
      [Select [fileAx, fileBy, fileCw], Process, Remove 1, FolderDone, FolderDone, FolderDone]
      initialApp)))) \<and>
   groupsOf (folders (fold (step idleBrowser)
      [Select [fileAx, fileBy, fileCw], Process, Remove 1, FolderDone, FolderDone, FolderDone]
      initialApp)) = [(''A'', [fileAx]), (''C'', [fileCw])]"
proof -
  have h: "distinct (map fst (groupsOf (folders initialApp) @
      concat (map intake [Select [fileAx, fileBy, fileCw], Process, Remove 1, FolderDone,
                           FolderDone, FolderDone])))"
    by (simp add: initialApp_def groupsOf_def newFolders_ABC folderA_def folderB_def folderC_def)
  note inst = folders_names_and_membership [where env = idleBrowser and st = initialApp
      and events = "[Select [fileAx, fileBy, fileCw], Process, Remove 1, FolderDone,
                      FolderDone, FolderDone]"]
  have g: "groupsOf (folders (fold (step idleBrowser)
      [Select [fileAx, fileBy, fileCw], Process, Remove 1, FolderDone, FolderDone, FolderDone]
      initialApp)) = [(''A'', [fileAx]), (''C'', [fileCw])]"
    unfolding run_third by (simp add: groupsOf_def folderA_def folderC_def)
  from inst h g show ?thesis by blast
qed

text \<open>
  The claim as stated fails: selecting a folder named \<open>A\<close> twice gives a state with two
  groups of the name \<open>A\<close>.
\<close>

theorem handleFolderUpload_twice_counterexample:
  "map fst (groupsOf (handleFolderUpload [fileAx] (handleFolderUpload [fileAx] []))) =
     [''A'', ''A''] \<and>
   \<not> distinct (map fst (groupsOf (handleFolderUpload [fileAx] (handleFolderUpload [fileAx] []))))"
  by (simp add: handleFolderUpload_def spread_def groupsOf_def newFolders_eq groupedInOrder_def
        firstSegment_def fileAx_def exampleFile_def)

end
